theory Spec2Isabelle
  imports Complex_Main "HOL-Library.Stream"
begin

section \<open>Numeric model and the external generator\<close>

text \<open>
  The module \<open>lib/nbd_util/random.py\<close> consists of the class \<open>RNG\<close> with the two static
  methods \<open>sphere\<close> and \<open>uniform\<close>. Two readings of its arithmetic are given.

  In the first, Python floats are read as real numbers: \<open>1.0e-6\<close> is the real number
  \<open>1 / 1000000\<close>, \<open>np.pi\<close> is \<open>pi\<close>, and the elementwise numpy operations are the real
  functions mapped over a list. The pipeline of \<open>RNG.sphere\<close>, whose trigonometric library
  functions have no exact rounding specification, is given in this reading only.

  In the second, given further below, \<open>RNG.uniform\<close> is evaluated in double precision, with
  the rounding and the overflow of each operation; the claims about the bounds of
  \<open>RNG.uniform\<close> for arbitrary \<open>lo\<close> and \<open>hi\<close> are settled there.

  A one-dimensional ndarray is a list of reals, a two-dimensional ndarray is the list of its
  rows. The count \<open>n\<close> is a Python integer.
\<close>


datatype error = ValueError | OverflowError

text \<open>
  The process-wide generator behind \<open>np.random\<close> is the only state the module touches. Its
  state is represented by the sequence of raw samples (the values \<open>random_sample()\<close> is going
  to produce, in order); drawing removes samples from the front of this sequence. The library
  documents the raw samples to lie in the half-open interval from 0 to 1, which is the
  predicate \<open>rng_ok\<close>.
\<close>

type_synonym rng_state = "real stream"

definition rng_ok :: "rng_state \<Rightarrow> bool" where
  "rng_ok g \<longleftrightarrow> (\<forall>r \<in> sset g. 0 \<le> r \<and> r < 1)"

text \<open>
  numpy is an external library; its generator is modelled by its documented behaviour.
  \<open>np.random.uniform(low, high, size)\<close> for an integer \<open>size\<close>, in real arithmetic: a
  negative size is rejected with \<open>ValueError\<close> (negative dimensions are not allowed);
  otherwise \<open>size\<close> raw samples \<open>r\<close> are consumed and each is scaled as
  \<open>low + (high - low) * r\<close>. The bounds are not compared with each other. Over the reals
  the range \<open>high - low\<close> is always finite; the check of the range belongs to the
  double-precision reading \<open>np_random_uniform_dbl\<close>.
\<close>


definition np_random_uniform ::
  "real \<Rightarrow> real \<Rightarrow> int \<Rightarrow> rng_state \<Rightarrow> error + (real list \<times> rng_state)" where
  "np_random_uniform low high sz g =
     (if sz < 0 then Inl ValueError
      else Inr (map (\<lambda>r. low + (high - low) * r) (stake (nat sz) g), sdrop (nat sz) g))"

section \<open>The coordinate conversion\<close>

text \<open>
  Modelled from the spec: \<open>CoordsCvt.sphere_to_cart\<close> lives in the sibling module
  \<open>coord.py\<close>. It takes the parallel sequences of polar and azimuthal
  angles and yields \<open>x = sin(theta)cos(phi)\<close>, \<open>y = sin(theta)sin(phi)\<close>,
  \<open>z = cos(theta)\<close>. Since \<open>sphere\<close> transposes the result to obtain one triple per point,
  the conversion is taken to return the three coordinate rows \<open>[xs, ys, zs]\<close>.
\<close>

definition sphere_to_cart :: "real list \<Rightarrow> real list \<Rightarrow> real list list" where
  "sphere_to_cart theta ph =
     [map2 (\<lambda>a b. sin a * cos b) theta ph,
      map2 (\<lambda>a b. sin a * sin b) theta ph,
      map (\<lambda>a. cos a) theta]"

section \<open>The class RNG\<close>

text \<open>
  \<open>RNG.uniform(n, lo=0., hi=1.)\<close> passes its arguments to the generator unchecked.
  \<open>uniform_default\<close> is the call \<open>RNG.uniform(n)\<close> with both defaults.
\<close>

definition uniform :: "int \<Rightarrow> real \<Rightarrow> real \<Rightarrow> rng_state \<Rightarrow> error + (real list \<times> rng_state)" where
  "uniform n lo hi g = np_random_uniform lo hi n g"

definition uniform_default :: "int \<Rightarrow> rng_state \<Rightarrow> error + (real list \<times> rng_state)" where
  "uniform_default n g = uniform n 0 1 g"

text \<open>
  The values that \<open>RNG.sphere\<close> computes on its way: the two batches returned by
  \<open>RNG.uniform\<close> (\<open>draw_u\<close> for the polar angle, \<open>draw_v\<close> for the azimuth), the locals
  \<open>cos_t\<close>, \<open>t\<close> and \<open>phi\<close>, and the returned array.
\<close>

record sphere_locals =
  draw_u :: "real list"
  loc_cos_t :: "real list"
  loc_t :: "real list"
  draw_v :: "real list"
  loc_phi :: "real list"
  ret :: "real list list"

definition sphere_run :: "int \<Rightarrow> rng_state \<Rightarrow> error + (sphere_locals \<times> rng_state)" where
  "sphere_run n g =
     (case uniform n (1 / 1000000) (1 - 1 / 1000000) g of
        Inl e \<Rightarrow> Inl e
      | Inr (us, g1) \<Rightarrow>
          (let c = map (\<lambda>x. 2 * x - 1) us;
               th = map arccos c
           in case uniform_default n g1 of
                Inl e \<Rightarrow> Inl e
              | Inr (vs, g2) \<Rightarrow>
                  (let ph = map (\<lambda>x. 2 * pi * x) vs
                   in Inr (\<lparr>draw_u = us, loc_cos_t = c, loc_t = th, draw_v = vs,
                             loc_phi = ph, ret = transpose (sphere_to_cart th ph)\<rparr>, g2))))"

definition sphere :: "int \<Rightarrow> rng_state \<Rightarrow> error + (real list list \<times> rng_state)" where
  "sphere n g =
     (case sphere_run n g of Inl e \<Rightarrow> Inl e | Inr (l, g') \<Rightarrow> Inr (ret l, g'))"

section \<open>Double-precision arithmetic\<close>

text \<open>
  The bounds stated for \<open>RNG.uniform\<close> depend on how \<open>low + (high - low) * r\<close> is rounded, so
  the generator is also given in IEEE 754 binary64 arithmetic. A finite double is a real
  number \<open>m * 2^e\<close> with an integer \<open>m\<close> of magnitude below \<open>2^53\<close> and
  \<open>-1074 \<le> e \<le> 971\<close>; this covers the subnormal numbers.
\<close>

definition pow2 :: "int \<Rightarrow> real" where
  "pow2 e = 2 powr of_int e"

definition is_double :: "real \<Rightarrow> bool" where
  "is_double x \<longleftrightarrow>
     (\<exists>m e :: int. \<bar>m\<bar> < 2 ^ 53 \<and> - 1074 \<le> e \<and> e \<le> 971 \<and> x = of_int m * pow2 e)"

text \<open>
  Rounding to nearest, ties to even. \<open>expo x\<close> is the exponent of the spacing of the doubles
  around \<open>x\<close>: 52 below the binary exponent of \<open>x\<close>, and never below the subnormal spacing
  \<open>2^(-1074)\<close>. \<open>rne x\<close> is the multiple of that spacing nearest to \<open>x\<close>. A result of
  magnitude \<open>2^1024\<close> or more is an overflow: the operation yields an infinity, and
  \<open>np.isfinite\<close> is false of it.
\<close>

definition expo :: "real \<Rightarrow> int" where
  "expo x = (if x = 0 then - 1074 else max (\<lfloor>log 2 \<bar>x\<bar>\<rfloor> - 52) (- 1074))"

definition round_even :: "real \<Rightarrow> int" where
  "round_even y =
     (let f = \<lfloor>y\<rfloor>; t = y - of_int f
      in if t < 1 / 2 then f else if 1 / 2 < t then f + 1 else if even f then f else f + 1)"

definition rne :: "real \<Rightarrow> real" where
  "rne x = of_int (round_even (x / pow2 (expo x))) * pow2 (expo x)"

definition dbl_finite :: "real \<Rightarrow> bool" where
  "dbl_finite y \<longleftrightarrow> \<bar>y\<bar> < 2 ^ 1024"

text \<open>
  The raw samples of the generator are the doubles \<open>i / 2^53\<close> with \<open>0 \<le> i < 2^53\<close>.
\<close>

definition raw_double :: "real \<Rightarrow> bool" where
  "raw_double r \<longleftrightarrow> (\<exists>i :: nat. i < 2 ^ 53 \<and> r = of_nat i / 2 ^ 53)"

definition rng_dbl :: "rng_state \<Rightarrow> bool" where
  "rng_dbl g \<longleftrightarrow> (\<forall>r \<in> sset g. raw_double r)"

text \<open>
  \<open>np.random.uniform(low, high, size)\<close> on doubles: the range \<open>high - low\<close> is computed
  first and \<open>OverflowError\<close> is raised when it is not finite; then a negative size is
  rejected with \<open>ValueError\<close>; otherwise each raw sample \<open>r\<close> gives
  \<open>low + range * r\<close>, the product and the sum each rounded. \<open>uniform_dbl\<close> and
  \<open>uniform_default_dbl\<close> are \<open>RNG.uniform(n, lo, hi)\<close> and \<open>RNG.uniform(n)\<close> over this
  generator.
\<close>

definition np_random_uniform_dbl ::
  "real \<Rightarrow> real \<Rightarrow> int \<Rightarrow> rng_state \<Rightarrow> error + (real list \<times> rng_state)" where
  "np_random_uniform_dbl low high sz g =
     (let range = rne (high - low)
      in if \<not> dbl_finite range then Inl OverflowError
         else if sz < 0 then Inl ValueError
         else Inr (map (\<lambda>r. rne (low + rne (range * r))) (stake (nat sz) g),
                   sdrop (nat sz) g))"

definition uniform_dbl ::
  "int \<Rightarrow> real \<Rightarrow> real \<Rightarrow> rng_state \<Rightarrow> error + (real list \<times> rng_state)" where
  "uniform_dbl n lo hi g = np_random_uniform_dbl lo hi n g"

definition uniform_default_dbl :: "int \<Rightarrow> rng_state \<Rightarrow> error + (real list \<times> rng_state)" where
  "uniform_default_dbl n g = uniform_dbl n 0 1 g"


section \<open>Basic facts about the model\<close>

text \<open>What the two outcomes of \<open>RNG.uniform\<close> are.\<close>

lemma uniform_nonneg:
  "0 \<le> n \<Longrightarrow> uniform n lo hi g =
     Inr (map (\<lambda>r. lo + (hi - lo) * r) (stake (nat n) g), sdrop (nat n) g)"
  by (simp add: uniform_def np_random_uniform_def)



text \<open>
  Transposing the three coordinate rows of equal length gives one triple per index, in order.
\<close>

lemma transpose_rows3:
  assumes "length xs = k" "length ys = k" "length zs = k"
  shows "transpose [xs, ys, zs] = map (\<lambda>i. [xs ! i, ys ! i, zs ! i]) [0..<k]"
proof -
  have rect: "\<And>i. i < length [xs, ys, zs] \<Longrightarrow> length ([xs, ys, zs] ! i) = k"
    using assms by (simp add: nth_Cons')
  have idx: "[0..<length [xs, ys, zs]] = [0, 1, 2]"
    by (simp add: upt_rec)
  show ?thesis
    by (subst transpose_rectangle [where n = k]) (use rect idx in simp_all)
qed

lemma sphere_to_cart_T:
  assumes "length th = k" "length ph = k"
  shows "transpose (sphere_to_cart th ph) =
     map (\<lambda>i. [sin (th ! i) * cos (ph ! i), sin (th ! i) * sin (ph ! i), cos (th ! i)]) [0..<k]"
proof -
  have "transpose (sphere_to_cart th ph) =
      map (\<lambda>i. [map2 (\<lambda>a b. sin a * cos b) th ph ! i,
                  map2 (\<lambda>a b. sin a * sin b) th ph ! i,
                  map (\<lambda>a. cos a) th ! i]) [0..<k]"
    unfolding sphere_to_cart_def using assms by (intro transpose_rows3) simp_all
  also have "\<dots> = map (\<lambda>i. [sin (th ! i) * cos (ph ! i), sin (th ! i) * sin (ph ! i), cos (th ! i)]) [0..<k]"
    using assms by (intro map_cong) simp_all
  finally show ?thesis .
qed

text \<open>
  For a non-negative count \<open>RNG.sphere\<close> returns; all its intermediate values are
  determined by the first \<open>2 * n\<close> raw samples.
\<close>

lemma sphere_run_nonneg:
  assumes "0 \<le> n"
  shows "\<exists>l. sphere_run n g = Inr (l, sdrop (nat n + nat n) g) \<and>
     draw_u l = map (\<lambda>r. 1 / 1000000 + (1 - 1 / 1000000 - 1 / 1000000) * r) (stake (nat n) g) \<and>
     loc_cos_t l = map (\<lambda>x. 2 * x - 1) (draw_u l) \<and>
     loc_t l = map arccos (loc_cos_t l) \<and>
     draw_v l = stake (nat n) (sdrop (nat n) g) \<and>
     loc_phi l = map (\<lambda>x. 2 * pi * x) (draw_v l) \<and>
     ret l = map (\<lambda>i. [sin (loc_t l ! i) * cos (loc_phi l ! i),
                         sin (loc_t l ! i) * sin (loc_phi l ! i),
                         cos (loc_t l ! i)]) [0..<nat n]"
  using assms
  by (simp add: sphere_run_def uniform_default_def uniform_nonneg Let_def sphere_to_cart_T [where k = "nat n"])


lemma sphere_of_run: "sphere_run n g = Inr (l, g') \<Longrightarrow> sphere n g = Inr (ret l, g')"
  by (simp add: sphere_def)


lemma unit_norm: "(sin a * cos b)\<^sup>2 + (sin a * sin b)\<^sup>2 + (cos a)\<^sup>2 = (1::real)"
proof -
  have "(sin a * cos b)\<^sup>2 + (sin a * sin b)\<^sup>2 = (sin a)\<^sup>2 * ((cos b)\<^sup>2 + (sin b)\<^sup>2)"
    by (simp only: power_mult_distrib distrib_left)
  also have "\<dots> = (sin a)\<^sup>2" by simp
  finally show ?thesis by simp
qed


text \<open>
  The same run, index by index: which raw sample each intermediate value comes from. The
  first batch uses the raw samples \<open>0, \<dots>, n - 1\<close>, the second the samples
  \<open>n, \<dots>, 2 * n - 1\<close>.
\<close>

lemma sphere_run_index:
  assumes "0 \<le> n"
  shows "\<exists>l. sphere_run n g = Inr (l, sdrop (nat n + nat n) g) \<and>
     ret l = transpose (sphere_to_cart (loc_t l) (loc_phi l)) \<and>
     length (draw_u l) = nat n \<and> length (loc_cos_t l) = nat n \<and> length (loc_t l) = nat n \<and>
     length (draw_v l) = nat n \<and> length (loc_phi l) = nat n \<and> length (ret l) = nat n \<and>
     (\<forall>i < nat n.
        draw_u l ! i = 1 / 1000000 + (1 - 1 / 1000000 - 1 / 1000000) * g !! i \<and>
        loc_cos_t l ! i = 2 * draw_u l ! i - 1 \<and>
        loc_t l ! i = arccos (loc_cos_t l ! i) \<and>
        draw_v l ! i = g !! (nat n + i) \<and>
        loc_phi l ! i = 2 * pi * draw_v l ! i \<and>
        ret l ! i = [sin (loc_t l ! i) * cos (loc_phi l ! i),
                     sin (loc_t l ! i) * sin (loc_phi l ! i),
                     cos (loc_t l ! i)])"
  using assms
  by (simp add: sphere_run_def uniform_default_def uniform_nonneg Let_def
      sphere_to_cart_T [where k = "nat n"] sdrop_snth)

lemma draw_u_range:
  assumes "0 \<le> r" and "r < 1"
  shows "1 / 1000000 \<le> 1 / 1000000 + (1 - 1 / 1000000 - 1 / 1000000) * r"
    and "1 / 1000000 + (1 - 1 / 1000000 - 1 / 1000000) * r < 1 - 1 / (1000000::real)"
  using assms by simp_all

text \<open>With raw samples in the unit interval, the ranges of the intermediate values.\<close>

lemma sphere_run_ranges:
  assumes "0 \<le> n" and "rng_ok g"
  shows "\<exists>l. sphere_run n g = Inr (l, sdrop (nat n + nat n) g) \<and>
     ret l = transpose (sphere_to_cart (loc_t l) (loc_phi l)) \<and>
     length (draw_u l) = nat n \<and> length (loc_cos_t l) = nat n \<and> length (loc_t l) = nat n \<and>
     length (draw_v l) = nat n \<and> length (loc_phi l) = nat n \<and> length (ret l) = nat n \<and>
     (\<forall>i < nat n.
        1 / 1000000 \<le> draw_u l ! i \<and> draw_u l ! i < 1 - 1 / 1000000 \<and>
        loc_cos_t l ! i = 2 * draw_u l ! i - 1 \<and>
        loc_t l ! i = arccos (loc_cos_t l ! i) \<and>
        0 \<le> draw_v l ! i \<and> draw_v l ! i < 1 \<and>
        loc_phi l ! i = 2 * pi * draw_v l ! i \<and>
        ret l ! i ! 2 = cos (loc_t l ! i))"
proof -
  from sphere_run_index [OF \<open>0 \<le> n\<close>, of g] obtain l where
    run: "sphere_run n g = Inr (l, sdrop (nat n + nat n) g)" and
    out: "ret l = transpose (sphere_to_cart (loc_t l) (loc_phi l))" and
    len: "length (draw_u l) = nat n" "length (loc_cos_t l) = nat n" "length (loc_t l) = nat n"
      "length (draw_v l) = nat n" "length (loc_phi l) = nat n" "length (ret l) = nat n" and
    idx: "\<And>i. i < nat n \<Longrightarrow>
        draw_u l ! i = 1 / 1000000 + (1 - 1 / 1000000 - 1 / 1000000) * g !! i \<and>
        loc_cos_t l ! i = 2 * draw_u l ! i - 1 \<and>
        loc_t l ! i = arccos (loc_cos_t l ! i) \<and>
        draw_v l ! i = g !! (nat n + i) \<and>
        loc_phi l ! i = 2 * pi * draw_v l ! i \<and>
        ret l ! i = [sin (loc_t l ! i) * cos (loc_phi l ! i),
                     sin (loc_t l ! i) * sin (loc_phi l ! i),
                     cos (loc_t l ! i)]"
    by blast
  have raw: "0 \<le> g !! k \<and> g !! k < 1" for k
    using \<open>rng_ok g\<close> by (simp add: rng_ok_def)
  have "1 / 1000000 \<le> draw_u l ! i \<and> draw_u l ! i < 1 - 1 / 1000000 \<and>
        loc_cos_t l ! i = 2 * draw_u l ! i - 1 \<and>
        loc_t l ! i = arccos (loc_cos_t l ! i) \<and>
        0 \<le> draw_v l ! i \<and> draw_v l ! i < 1 \<and>
        loc_phi l ! i = 2 * pi * draw_v l ! i \<and>
        ret l ! i ! 2 = cos (loc_t l ! i)" if "i < nat n" for i
    using idx [OF that] raw [of i] raw [of "nat n + i"] draw_u_range [of "g !! i"]
    by simp
  with run out len show ?thesis by blast
qed

section \<open>Facts about double rounding\<close>

text \<open>Powers of two.\<close>

lemma pow2_pos [simp]: "0 < pow2 e"
  by (simp add: pow2_def)

lemma pow2_nonneg [simp]: "0 \<le> pow2 e"
  by (simp add: pow2_def)

lemma pow2_add: "pow2 (a + b) = pow2 a * pow2 b"
  by (simp add: pow2_def powr_add)

lemma pow2_mono: "a \<le> b \<Longrightarrow> pow2 a \<le> pow2 b"
  by (simp add: pow2_def)

lemma pow2_nat: "pow2 (int n) = 2 ^ n"
  by (simp add: pow2_def powr_realpow)

lemma pow2_neg: "pow2 (- int n) = 1 / 2 ^ n"
  by (simp add: pow2_def powr_minus powr_realpow inverse_eq_divide)

lemma pow2_numeral [simp]: "pow2 (numeral k) = 2 ^ numeral k"
  using pow2_nat [of "numeral k"] by simp

lemma pow2_neg_numeral [simp]: "pow2 (- numeral k) = 1 / 2 ^ numeral k"
  using pow2_neg [of "numeral k"] by simp

lemma pow2_0 [simp]: "pow2 0 = 1"
  by (simp add: pow2_def)

lemma pow2_1 [simp]: "pow2 1 = 2"
  by (simp add: pow2_def)

lemma pow2_diff_nat: "a \<le> b \<Longrightarrow> pow2 b = 2 ^ nat (b - a) * pow2 a"
proof -
  assume "a \<le> b"
  then have "b = int (nat (b - a)) + a" by simp
  then have "pow2 b = pow2 (int (nat (b - a))) * pow2 a"
    by (metis pow2_add)
  then show ?thesis by (simp only: pow2_nat)
qed

lemma round_even_near: "\<bar>of_int (round_even y) - y\<bar> \<le> 1 / 2"
proof -
  have "of_int \<lfloor>y\<rfloor> \<le> y" and "y < of_int \<lfloor>y\<rfloor> + 1" by linarith+
  then show ?thesis
    by (auto simp: round_even_def Let_def)
qed

lemma round_even_nearest: "\<bar>of_int (round_even y) - y\<bar> \<le> \<bar>of_int j - y\<bar>"
proof (cases "j = round_even y")
  case True
  then show ?thesis by simp
next
  case False
  then have "1 \<le> \<bar>j - round_even y\<bar>" by linarith
  then have "(1::real) \<le> \<bar>of_int j - of_int (round_even y)\<bar>"
    by (metis of_int_1_le_iff of_int_abs of_int_diff)
  with round_even_near [of y] show ?thesis by linarith
qed

lemma round_even_of_int [simp]: "round_even (of_int k) = k"
  by (simp add: round_even_def)

lemma expo_lower: "- 1074 \<le> expo x"
  by (simp add: expo_def)

lemma rne_0 [simp]: "rne 0 = 0"
  by (simp add: rne_def round_even_def)

lemma expo_upper_bound:
  assumes "x \<noteq> 0"
  shows "\<bar>x\<bar> < pow2 (expo x + 53)"
proof -
  have pos: "0 < \<bar>x\<bar>" using assms by simp
  define L where "L = \<lfloor>log 2 \<bar>x\<bar>\<rfloor>"
  have "\<bar>x\<bar> < 2 powr (of_int L + 1)"
    using floor_log_eq_powr_iff [of "\<bar>x\<bar>" 2 L] pos by (simp add: L_def)
  also have "\<dots> = pow2 (L + 1)" by (simp add: pow2_def)
  also have "\<dots> \<le> pow2 (expo x + 53)"
    using assms by (intro pow2_mono) (simp add: expo_def L_def)
  finally show ?thesis .
qed

lemma expo_lower_bound:
  assumes "- 1074 < expo x"
  shows "pow2 (expo x + 52) \<le> \<bar>x\<bar>"
proof -
  define L where "L = \<lfloor>log 2 \<bar>x\<bar>\<rfloor>"
  have "x \<noteq> 0"
  proof
    assume "x = 0"
    then have "expo x = - 1074" by (simp add: expo_def)
    with assms show False by simp
  qed
  then have pos: "0 < \<bar>x\<bar>" by simp
  have E: "expo x = L - 52"
    using assms \<open>x \<noteq> 0\<close> by (simp add: expo_def L_def max_def split: if_splits)
  have "2 powr of_int L \<le> \<bar>x\<bar>"
    using floor_log_eq_powr_iff [of "\<bar>x\<bar>" 2 L] pos by (simp add: L_def)
  then show ?thesis by (simp add: E pow2_def)
qed

lemma expo_eqI:
  assumes "pow2 (e + 52) \<le> \<bar>x\<bar>" and "\<bar>x\<bar> < pow2 (e + 53)" and "- 1074 \<le> e"
  shows "expo x = e"
proof -
  have pos: "0 < \<bar>x\<bar>"
    using assms(1) pow2_pos [of "e + 52"] by linarith
  have "\<lfloor>log 2 \<bar>x\<bar>\<rfloor> = e + 52"
    using assms(1,2) pos
    by (subst floor_log_eq_powr_iff) (simp_all add: pow2_def add.commute algebra_simps)
  then show ?thesis
    using assms(3) pos by (simp add: expo_def)
qed

lemma rne_eqI:
  assumes "pow2 (e + 52) \<le> \<bar>x\<bar>" and "\<bar>x\<bar> < pow2 (e + 53)" and "- 1074 \<le> e"
    and "round_even (x / pow2 e) = k"
  shows "rne x = of_int k * pow2 e"
  using expo_eqI [OF assms(1-3)] assms(4) by (simp add: rne_def)

lemma round_even_tie: "round_even (of_int k + 1 / 2) = (if even k then k else k + 1)"
proof -
  have "\<lfloor>of_int k + (1 / 2 :: real)\<rfloor> = k" by linarith
  then show ?thesis by (simp add: round_even_def Let_def)
qed


lemma is_doubleI:
  "\<bar>m\<bar> < 2 ^ 53 \<Longrightarrow> - 1074 \<le> e \<Longrightarrow> e \<le> 971 \<Longrightarrow> x = of_int m * pow2 e \<Longrightarrow> is_double x"
  unfolding is_double_def by blast

text \<open>
  The result of rounding is at least as near to the argument as any double. Everything else
  about rounding below follows from this.
\<close>

lemma pow2_abs [simp]: "\<bar>pow2 e\<bar> = pow2 e"
  by (simp add: abs_of_pos)

lemma abs_scaled: "0 < q \<Longrightarrow> \<bar>a * q - x\<bar> = \<bar>a - x / q\<bar> * (q::real)"
proof -
  assume q: "0 < q"
  then have "a * q - x = (a - x / q) * q"
    by (simp add: field_simps)
  then show ?thesis
    using q by (simp add: abs_mult abs_of_pos)
qed

lemma rne_grid_nearest: "\<bar>rne x - x\<bar> \<le> \<bar>of_int j * pow2 (expo x) - x\<bar>"
proof -
  let ?q = "pow2 (expo x)"
  have "\<bar>rne x - x\<bar> = \<bar>of_int (round_even (x / ?q)) - x / ?q\<bar> * ?q"
    unfolding rne_def by (rule abs_scaled) simp
  also have "\<dots> \<le> \<bar>of_int j - x / ?q\<bar> * ?q"
    by (intro mult_right_mono round_even_nearest) simp
  also have "\<dots> = \<bar>of_int j * ?q - x\<bar>"
    by (rule abs_scaled [symmetric]) simp
  finally show ?thesis .
qed

lemma rne_nearest:
  assumes "is_double f"
  shows "\<bar>rne x - x\<bar> \<le> \<bar>f - x\<bar>"
proof -
  from assms obtain m e :: int where
    m: "\<bar>m\<bar> < 2 ^ 53" and e: "- 1074 \<le> e" and f: "f = of_int m * pow2 e"
    by (auto simp: is_double_def)
  let ?E = "expo x"
  show ?thesis
  proof (cases "?E \<le> e")
    case True
    have "f = of_int (m * 2 ^ nat (e - ?E)) * pow2 ?E"
      by (simp add: f pow2_diff_nat [OF True])
    then show ?thesis
      using rne_grid_nearest [of x "m * 2 ^ nat (e - ?E)"] by simp
  next
    case False
    then have E: "- 1074 < ?E" and e53: "e + 53 \<le> ?E + 52"
      using e by simp_all
    have lower: "pow2 (?E + 52) \<le> \<bar>x\<bar>"
      by (rule expo_lower_bound [OF E])
    have "\<bar>f\<bar> = \<bar>of_int m\<bar> * pow2 e"
      by (simp add: f abs_mult)
    also have "\<dots> \<le> 2 ^ 53 * pow2 e"
    proof -
      have "\<bar>real_of_int m\<bar> \<le> 2 ^ 53"
        using m by (metis less_imp_le of_int_abs of_int_le_numeral_power_cancel_iff)
      then show ?thesis by (intro mult_right_mono) simp_all
    qed
    also have "\<dots> = pow2 (e + 53)"
      by (simp add: pow2_add)
    also have "\<dots> \<le> pow2 (?E + 52)"
      by (rule pow2_mono [OF e53])
    finally have fb: "\<bar>f\<bar> \<le> pow2 (?E + 52)" .
    have B: "pow2 (?E + 52) = of_int (2 ^ 52) * pow2 ?E"
      by (simp add: pow2_add)
    show ?thesis
    proof (cases "0 \<le> x")
      case True
      have "\<bar>rne x - x\<bar> \<le> \<bar>of_int (2 ^ 52) * pow2 ?E - x\<bar>"
        by (rule rne_grid_nearest)
      also have "\<dots> = x - pow2 (?E + 52)"
        using lower True by (simp add: B)
      also have "\<dots> \<le> \<bar>f - x\<bar>"
        using fb by linarith
      finally show ?thesis .
    next
      case False
      have "\<bar>rne x - x\<bar> \<le> \<bar>of_int (- (2 ^ 52)) * pow2 ?E - x\<bar>"
        by (rule rne_grid_nearest)
      also have "\<dots> = - x - pow2 (?E + 52)"
        using lower False by (simp add: B)
      also have "\<dots> \<le> \<bar>f - x\<bar>"
        using fb by linarith
      finally show ?thesis .
    qed
  qed
qed

lemma rne_id: "is_double x \<Longrightarrow> rne x = x"
  using rne_nearest [of x x] by simp

lemma is_double_0 [simp]: "is_double 0"
  by (rule is_doubleI [of 0 0]) simp_all

lemma is_double_uminus: "is_double x \<Longrightarrow> is_double (- x)"
  unfolding is_double_def
  by (elim exE conjE, rule_tac x = "- m" in exI, rule_tac x = e in exI) simp

lemma rne_nonneg: "0 \<le> x \<Longrightarrow> 0 \<le> rne x"
  using rne_nearest [OF is_double_0, of x] by linarith

lemma rne_nonpos: "x \<le> 0 \<Longrightarrow> rne x \<le> 0"
  using rne_nearest [OF is_double_0, of x] by linarith

lemma rne_le_double: "is_double f \<Longrightarrow> x \<le> f \<Longrightarrow> rne x \<le> f"
  using rne_nearest [of f x] by linarith

lemma rne_ge_double: "is_double f \<Longrightarrow> f \<le> x \<Longrightarrow> f \<le> rne x"
  using rne_nearest [of f x] by linarith

text \<open>Rounding is symmetric, and a finite result is a double.\<close>

lemma pow2_less_cancel: "pow2 a < pow2 b \<Longrightarrow> a < b"
  using pow2_mono [of b a] by (cases "a < b") simp_all

lemma round_even_le: "y \<le> of_int n \<Longrightarrow> round_even y \<le> n"
proof -
  assume "y \<le> of_int n"
  with round_even_nearest [of y n] have "real_of_int (round_even y) \<le> of_int n"
    by linarith
  then show ?thesis by simp
qed

lemma round_even_ge: "of_int n \<le> y \<Longrightarrow> n \<le> round_even y"
proof -
  assume "of_int n \<le> y"
  with round_even_nearest [of y n] have "real_of_int n \<le> of_int (round_even y)"
    by linarith
  then show ?thesis by simp
qed

lemma round_even_uminus: "round_even (- y) = - round_even y"
proof (cases "y = of_int \<lfloor>y\<rfloor>")
  case True
  then obtain k :: int where "y = of_int k" ..
  then have "- y = of_int (- k)" by simp
  then show ?thesis
    using \<open>y = of_int k\<close> by (metis round_even_of_int)
next
  case False
  then have "of_int \<lfloor>y\<rfloor> < y" and "y < of_int \<lfloor>y\<rfloor> + 1"
    by linarith+
  then have fl: "\<lfloor>- y\<rfloor> = - \<lfloor>y\<rfloor> - 1"
    by linarith
  show ?thesis
    unfolding round_even_def Let_def fl by (auto simp: algebra_simps)
qed

lemma expo_uminus [simp]: "expo (- x) = expo x"
  by (simp add: expo_def)

lemma rne_uminus: "rne (- x) = - rne x"
  by (simp add: rne_def round_even_uminus)

lemma rne_is_double:
  assumes "dbl_finite (rne x)"
  shows "is_double (rne x)"
proof (cases "x = 0")
  case True
  then show ?thesis by simp
next
  case False
  let ?E = "expo x"
  let ?q = "pow2 ?E"
  define k where "k = round_even (x / ?q)"
  have R: "rne x = of_int k * ?q"
    by (simp add: rne_def k_def)
  have "\<bar>x\<bar> < pow2 (?E + 53)"
    by (rule expo_upper_bound [OF False])
  then have "\<bar>x\<bar> < 2 ^ 53 * ?q"
    by (simp add: pow2_add mult.commute)
  then have ub: "x / ?q \<le> of_int (2 ^ 53)" and lb: "of_int (- (2 ^ 53)) \<le> x / ?q"
    by (simp_all add: pos_divide_le_eq pos_le_divide_eq abs_less_iff)
  have "k \<le> 2 ^ 53"
    unfolding k_def by (rule round_even_le [OF ub])
  moreover have "- (2 ^ 53) \<le> k"
    unfolding k_def by (rule round_even_ge [OF lb])
  ultimately have kb: "\<bar>k\<bar> \<le> 2 ^ 53" by simp
  have fin: "\<bar>real_of_int k\<bar> * ?q < 2 ^ 1024"
    using assms by (simp add: dbl_finite_def R abs_mult)
  show ?thesis
  proof (cases "\<bar>k\<bar> = 2 ^ 53")
    case True
    then have "\<bar>real_of_int k\<bar> = 2 ^ 53"
      by (metis of_int_abs of_int_numeral of_int_power)
    with fin have "?q < pow2 971"
      by simp
    then have E: "?E + 1 \<le> 971"
      using pow2_less_cancel [of ?E 971] by simp
    have k: "k = 2 ^ 53 \<or> k = - (2 ^ 53)"
      using True by linarith
    have "rne x = of_int (k div 2) * pow2 (?E + 1)"
      using k by (auto simp: R pow2_add)
    moreover have "\<bar>k div 2\<bar> < 2 ^ 53"
      using k by auto
    ultimately show ?thesis
      using E expo_lower [of x] by (intro is_doubleI [of "k div 2" "?E + 1"]) simp_all
  next
    case False
    with kb have ks: "\<bar>k\<bar> < 2 ^ 53" by simp
    have E: "?E \<le> 971"
    proof (cases "- 1074 < ?E")
      case True
      have "pow2 (?E + 52) \<le> \<bar>x\<bar>"
        by (rule expo_lower_bound [OF True])
      then have "2 ^ 52 \<le> \<bar>x / ?q\<bar>"
        by (simp add: pow2_add pos_le_divide_eq mult.commute)
      then have "2 ^ 52 \<le> \<bar>k\<bar>"
      proof (cases "0 \<le> x")
        case True
        with \<open>2 ^ 52 \<le> \<bar>x / ?q\<bar>\<close> have "of_int (2 ^ 52) \<le> x / ?q" by simp
        from round_even_ge [OF this] show ?thesis by (simp add: k_def)
      next
        case False
        with \<open>2 ^ 52 \<le> \<bar>x / ?q\<bar>\<close> have "x / ?q \<le> of_int (- (2 ^ 52))"
          by (simp add: abs_if divide_less_0_iff split: if_splits)
        from round_even_le [OF this] show ?thesis by (simp add: k_def)
      qed
      then have "2 ^ 52 \<le> \<bar>real_of_int k\<bar>"
        by (metis of_int_abs of_int_le_iff of_int_numeral of_int_power)
      then have "2 ^ 52 * ?q \<le> \<bar>real_of_int k\<bar> * ?q"
        by (intro mult_right_mono) simp_all
      with fin have "2 ^ 52 * ?q < 2 ^ 1024" by linarith
      then have "?q < pow2 972" by simp
      from pow2_less_cancel [OF this] show ?thesis by simp
    next
      case False
      with expo_lower [of x] show ?thesis by simp
    qed
    show ?thesis
      using ks E expo_lower [of x] R by (intro is_doubleI [of k ?E]) simp_all
  qed
qed

text \<open>
  Doubles and their differences are multiples of the smallest subnormal number.
\<close>

lemma is_double_grid:
  assumes "is_double x"
  shows "\<exists>j :: int. x = of_int j * pow2 (- 1074)"
proof -
  from assms obtain m e :: int where e: "- 1074 \<le> e" and x: "x = of_int m * pow2 e"
    by (auto simp: is_double_def)
  have "x = of_int (m * 2 ^ nat (e - (- 1074))) * pow2 (- 1074)"
    unfolding x by (subst pow2_diff_nat [OF e]) simp
  then show ?thesis ..
qed

lemma grid_diff:
  assumes "is_double a" and "is_double b"
  shows "\<exists>j :: int. b - a = of_int j * pow2 (- 1074)"
proof -
  from is_double_grid [OF assms(1)] obtain i :: int where a: "a = of_int i * pow2 (- 1074)" ..
  from is_double_grid [OF assms(2)] obtain j :: int where b: "b = of_int j * pow2 (- 1074)" ..
  have "b - a = of_int (j - i) * pow2 (- 1074)"
    unfolding a b by (simp only: of_int_diff left_diff_distrib)
  then show ?thesis ..
qed

text \<open>A rounded-up difference: the result has a neighbour one grid step below.\<close>

lemma rne_above:
  assumes grid: "d = of_int j * pow2 (- 1074)" and up: "d < rne d" and pos: "0 \<le> d"
    and fin: "dbl_finite (rne d)"
  shows "is_double (rne d - pow2 (expo d)) \<and> pow2 (expo d) < rne d / 2 ^ 52"
proof -
  let ?E = "expo d"
  let ?q = "pow2 ?E"
  define k where "k = round_even (d / ?q)"
  have R: "rne d = of_int k * ?q"
    by (simp add: rne_def k_def)
  have d0: "d \<noteq> 0"
    using up by auto
  have E: "- 1074 < ?E"
  proof (rule ccontr)
    assume "\<not> - 1074 < ?E"
    with expo_lower [of d] have "?E = - 1074" by simp
    then have "rne d = d"
      by (simp add: rne_def grid)
    with up show False by simp
  qed
  have "pow2 (?E + 52) \<le> \<bar>d\<bar>"
    by (rule expo_lower_bound [OF E])
  then have low: "2 ^ 52 * ?q \<le> d"
    using pos by (simp add: pow2_add mult.commute)
  then have "of_int (2 ^ 52) \<le> d / ?q"
    by (simp add: pos_le_divide_eq)
  from round_even_ge [OF this] have k52: "2 ^ 52 \<le> k"
    by (simp add: k_def)
  have "k \<noteq> 2 ^ 52"
  proof
    assume "k = 2 ^ 52"
    then have "rne d = 2 ^ 52 * ?q" by (simp add: R)
    with low up show False by simp
  qed
  with k52 have kgt: "2 ^ 52 < k" by simp
  have "\<bar>d\<bar> < pow2 (?E + 53)"
    by (rule expo_upper_bound [OF d0])
  then have "d / ?q \<le> of_int (2 ^ 53)"
    using pos by (simp add: pow2_add pos_divide_le_eq mult.commute)
  from round_even_le [OF this] have k53: "k \<le> 2 ^ 53"
    by (simp add: k_def)
  have rk: "(2::real) ^ 52 < of_int k"
    using kgt by (metis of_int_less_iff of_int_numeral of_int_power)
  then have "2 ^ 52 * ?q < of_int k * ?q"
    by (intro mult_strict_right_mono) simp_all
  moreover have "of_int k * ?q < 2 ^ 1024"
    using fin rk by (simp add: dbl_finite_def R abs_mult)
  ultimately have "2 ^ 52 * ?q < 2 ^ 1024" by linarith
  then have "?q < pow2 972" by simp
  from pow2_less_cancel [OF this] have E971: "?E \<le> 971" by simp
  have "rne d - ?q = of_int (k - 1) * ?q"
    by (simp add: R left_diff_distrib)
  moreover have "\<bar>k - 1\<bar> < 2 ^ 53"
    using kgt k53 by simp
  ultimately have "is_double (rne d - ?q)"
    using E E971 by (intro is_doubleI [of "k - 1" ?E]) simp_all
  moreover have "?q < rne d / 2 ^ 52"
    using \<open>2 ^ 52 * ?q < of_int k * ?q\<close> by (simp add: R pos_less_divide_eq mult.commute)
  ultimately show ?thesis ..
qed

text \<open>
  Scaling a rounded difference by a raw sample never overshoots the exact difference.
\<close>

lemma scaled_range_nonneg:
  assumes grid: "d = of_int j * pow2 (- 1074)" and pos: "0 \<le> d"
    and fin: "dbl_finite (rne d)" and r0: "0 \<le> r" and r1: "r \<le> 1 - 1 / 2 ^ 53"
  shows "0 \<le> rne (rne d * r) \<and> rne (rne d * r) \<le> d"
proof -
  let ?R = "rne d"
  let ?P = "rne (?R * r)"
  have R0: "0 \<le> ?R" by (rule rne_nonneg [OF pos])
  have dR: "is_double ?R" by (rule rne_is_double [OF fin])
  have P0: "0 \<le> ?P"
    using R0 r0 by (intro rne_nonneg) simp
  have "?R * r \<le> ?R * 1"
    using R0 r1 by (intro mult_left_mono) simp_all
  then have PR: "?P \<le> ?R"
    using dR by (intro rne_le_double) simp_all
  have "dbl_finite ?P"
    using fin P0 PR R0 by (simp add: dbl_finite_def)
  then have dP: "is_double ?P" by (rule rne_is_double)
  have "?P \<le> d"
  proof (rule ccontr)
    assume "\<not> ?P \<le> d"
    then have dltP: "d < ?P" by simp
    with PR have up: "d < ?R" by simp
    from rne_nearest [OF dP, of d] dltP up have "?R \<le> ?P" by linarith
    with PR have PeqR: "?P = ?R" by simp
    from rne_above [OF grid up pos fin] have
      f: "is_double (?R - pow2 (expo d))" and q: "pow2 (expo d) < ?R / 2 ^ 52"
      by simp_all
    define t where "t = ?R / 2 ^ 53"
    define gap where "gap = ?R - ?R * r"
    have "?R * (1 / 2 ^ 53) \<le> ?R * (1 - r)"
      using R0 r1 by (intro mult_left_mono) simp_all
    then have t: "t \<le> gap"
      by (simp add: right_diff_distrib t_def gap_def)
    from q have "pow2 (expo d) < 2 * t" by (simp add: t_def)
    with t have "pow2 (expo d) < 2 * gap" by linarith
    moreover have "0 < pow2 (expo d)" by simp
    ultimately have "\<bar>gap - pow2 (expo d)\<bar> < \<bar>gap\<bar>"
      by linarith
    moreover have "(?R - pow2 (expo d)) - ?R * r = gap - pow2 (expo d)"
      by (simp add: gap_def)
    ultimately have "\<bar>(?R - pow2 (expo d)) - ?R * r\<bar> < \<bar>?R - ?R * r\<bar>"
      by (simp add: gap_def)
    with rne_nearest [OF f, of "?R * r"] PeqR show False by simp
  qed
  with P0 show ?thesis ..
qed

lemma scaled_range_nonpos:
  assumes grid: "d = of_int j * pow2 (- 1074)" and neg: "d \<le> 0"
    and fin: "dbl_finite (rne d)" and r0: "0 \<le> r" and r1: "r \<le> 1 - 1 / 2 ^ 53"
  shows "d \<le> rne (rne d * r) \<and> rne (rne d * r) \<le> 0"
proof -
  have g: "- d = of_int (- j) * pow2 (- 1074)"
    by (simp add: grid)
  have f: "dbl_finite (rne (- d))"
    using fin by (simp add: rne_uminus dbl_finite_def)
  from scaled_range_nonneg [OF g _ f r0 r1] neg
  have "0 \<le> rne (rne (- d) * r) \<and> rne (rne (- d) * r) \<le> - d" by simp
  moreover have "rne (rne (- d) * r) = - rne (rne d * r)"
    by (simp add: rne_uminus)
  ultimately show ?thesis by simp
qed

text \<open>Facts about \<open>RNG.uniform\<close> in double precision.\<close>

lemma is_double_of_int: "\<bar>m\<bar> < 2 ^ 53 \<Longrightarrow> is_double (of_int m)"
  by (rule is_doubleI [of m 0]) simp_all

lemma is_double_1 [simp]: "is_double 1"
  using is_double_of_int [of 1] by simp

lemma is_double_numeral: "numeral k < (2::int) ^ 53 \<Longrightarrow> is_double (numeral k)"
  using is_double_of_int [of "numeral k"] by simp

lemma is_double_finite:
  assumes "is_double x"
  shows "\<bar>x\<bar> < 2 ^ 1024"
proof -
  from assms obtain m e :: int where
    m: "\<bar>m\<bar> < 2 ^ 53" and e: "e \<le> 971" and x: "x = of_int m * pow2 e"
    by (auto simp: is_double_def)
  have "\<bar>real_of_int m\<bar> < 2 ^ 53"
    using m by (metis of_int_abs of_int_less_numeral_power_cancel_iff)
  then have "\<bar>x\<bar> < 2 ^ 53 * pow2 e"
    unfolding x by (simp add: abs_mult)
  also have "\<dots> \<le> 2 ^ 53 * pow2 971"
    using pow2_mono [OF e] by simp
  also have "\<dots> = 2 ^ 1024" by simp
  finally show ?thesis .
qed

lemma raw_double_range:
  assumes "raw_double r"
  shows "0 \<le> r" and "r \<le> 1 - 1 / 2 ^ 53" and "r < 1" and "is_double r"
proof -
  from assms obtain i :: nat where i: "i < 2 ^ 53" and r: "r = of_nat i / 2 ^ 53"
    by (auto simp: raw_double_def)
  show "0 \<le> r" by (simp add: r)
  have "i + 1 \<le> 2 ^ 53" using i by simp
  then have "real (i + 1) \<le> real (2 ^ 53)"
    by (rule of_nat_mono)
  then have "real i \<le> 2 ^ 53 - 1" by simp
  then have "real i / 2 ^ 53 \<le> (2 ^ 53 - 1) / 2 ^ 53"
    by (rule divide_right_mono) simp
  also have "\<dots> = 1 - 1 / (2::real) ^ 53"
    by (simp only: diff_divide_distrib) simp
  finally show le: "r \<le> 1 - 1 / 2 ^ 53"
    by (simp only: r)
  have "1 - 1 / (2::real) ^ 53 < 1" by simp
  with le show "r < 1" by (rule le_less_trans)
  have m: "\<bar>int i\<bar> < 2 ^ 53" using i by simp
  have x: "r = of_int (int i) * pow2 (- 53)"
    by (simp add: r)
  show "is_double r"
    by (rule is_doubleI [OF m _ _ x]) simp_all
qed

lemma rng_dbl_stake: "rng_dbl g \<Longrightarrow> r \<in> set (stake k g) \<Longrightarrow> raw_double r"
proof -
  assume ok: "rng_dbl g" and mem: "r \<in> set (stake k g)"
  from mem obtain i where "i < k" and "r = g !! i"
    by (auto simp: in_set_conv_nth)
  then have "r \<in> sset g" by simp
  with ok show ?thesis by (simp add: rng_dbl_def)
qed

text \<open>One value of the batch: it stays between the bounds, whichever way round they are.\<close>

lemma uniform_value_between:
  assumes lo: "is_double lo" and hi: "is_double hi"
    and fin: "dbl_finite (rne (hi - lo))" and r: "raw_double r"
  shows "min lo hi \<le> rne (lo + rne (rne (hi - lo) * r))"
    and "rne (lo + rne (rne (hi - lo) * r)) \<le> max lo hi"
    and "is_double (rne (lo + rne (rne (hi - lo) * r)))"
proof -
  let ?P = "rne (rne (hi - lo) * r)"
  let ?v = "rne (lo + ?P)"
  from grid_diff [OF lo hi] obtain j :: int where grid: "hi - lo = of_int j * pow2 (- 1074)" ..
  note rr = raw_double_range [OF r]
  have between: "min lo hi \<le> lo + ?P \<and> lo + ?P \<le> max lo hi"
  proof (cases "lo \<le> hi")
    case True
    then have "0 \<le> hi - lo" by simp
    from scaled_range_nonneg [OF grid this fin rr(1) rr(2)] True show ?thesis by simp
  next
    case False
    then have "hi - lo \<le> 0" by simp
    from scaled_range_nonpos [OF grid this fin rr(1) rr(2)] False show ?thesis by simp
  qed
  have dmin: "is_double (min lo hi)" and dmax: "is_double (max lo hi)"
    using lo hi by (simp_all add: min_def max_def)
  show lower: "min lo hi \<le> ?v"
    using between by (intro rne_ge_double [OF dmin]) simp
  show upper: "?v \<le> max lo hi"
    using between by (intro rne_le_double [OF dmax]) simp
  have "\<bar>?v\<bar> \<le> max \<bar>lo\<bar> \<bar>hi\<bar>"
    using lower upper by (simp add: min_def max_def abs_if split: if_splits)
  also have "\<dots> < 2 ^ 1024"
    using is_double_finite [OF lo] is_double_finite [OF hi] by simp
  finally have "dbl_finite ?v" by (simp add: dbl_finite_def)
  then show "is_double ?v" by (rule rne_is_double)
qed

lemma uniform_dbl_finite:
  assumes "dbl_finite (rne (hi - lo))" and "0 \<le> n"
  shows "uniform_dbl n lo hi g =
     Inr (map (\<lambda>r. rne (lo + rne (rne (hi - lo) * r))) (stake (nat n) g), sdrop (nat n) g)"
  using assms by (simp add: uniform_dbl_def np_random_uniform_dbl_def)

lemma uniform_dbl_overflow:
  assumes "\<not> dbl_finite (rne (hi - lo))"
  shows "uniform_dbl n lo hi g = Inl OverflowError"
  using assms by (simp add: uniform_dbl_def np_random_uniform_dbl_def)

lemma uniform_default_dbl_values:
  assumes "0 \<le> n" and "rng_dbl g"
  shows "uniform_default_dbl n g = Inr (stake (nat n) g, sdrop (nat n) g)"
proof -
  have one: "rne 1 = 1"
    by (simp add: rne_id)
  have "rne (0 + rne (rne (1 - 0) * r)) = r" if "r \<in> set (stake (nat n) g)" for r
  proof -
    from rng_dbl_stake [OF assms(2) that] have "is_double r"
      by (rule raw_double_range)
    then show ?thesis by (simp add: one rne_id)
  qed
  then have "map (\<lambda>r. rne (0 + rne (rne (1 - 0) * r))) (stake (nat n) g) = stake (nat n) g"
    by (intro map_idI) simp
  moreover have "dbl_finite (rne (1 - 0))"
    by (simp add: one dbl_finite_def)
  ultimately show ?thesis
    unfolding uniform_default_dbl_def using assms(1)
    by (simp only: uniform_dbl_finite)
qed

text \<open>Concrete doubles, raw samples and roundings used in the examples.\<close>

lemma raw_double_top: "raw_double (1 - 1 / 2 ^ 53)"
  unfolding raw_double_def by (rule exI [of _ "2 ^ 53 - 1"]) simp

lemma raw_double_half: "raw_double (1 / 2)"
  unfolding raw_double_def by (rule exI [of _ "2 ^ 52"]) simp

lemma is_double_2 [simp]: "is_double 2"
  by (rule is_double_numeral) simp

lemma is_double_3 [simp]: "is_double 3"
  by (rule is_double_numeral) simp

lemma rne_round_up_to_2: "rne (2 - 1 / 2 ^ 53) = 2"
proof -
  have r: "round_even ((2 - 1 / 2 ^ 53) / pow2 (- 52)) = 2 ^ 53"
    using round_even_tie [of "2 ^ 53 - 1"] by simp
  have "rne (2 - 1 / 2 ^ 53) = of_int (2 ^ 53) * pow2 (- 52)"
    by (rule rne_eqI [OF _ _ _ r]) simp_all
  then show ?thesis by simp
qed

lemma rne_round_down_to_1: "rne (1 + 1 / 2 ^ 53) = 1"
proof -
  have r: "round_even ((1 + 1 / 2 ^ 53) / pow2 (- 52)) = 2 ^ 52"
    using round_even_tie [of "2 ^ 52"] by simp
  have "rne (1 + 1 / 2 ^ 53) = of_int (2 ^ 52) * pow2 (- 52)"
    by (rule rne_eqI [OF _ _ _ r]) simp_all
  then show ?thesis by simp
qed

lemma uniform_dbl_single:
  assumes "dbl_finite (rne (hi - lo))" and "rne (lo + rne (rne (hi - lo) * r)) = v"
  shows "uniform_dbl 1 lo hi (sconst r) = Inr ([v], sconst r)"
  using assms by (simp add: uniform_dbl_finite)

lemma uniform_dbl_reaches_hi:
  "uniform_dbl 1 1 2 (sconst (1 - 1 / 2 ^ 53)) = Inr ([2], sconst (1 - 1 / 2 ^ 53))"
proof -
  have r: "is_double (1 - 1 / 2 ^ 53)"
    by (rule raw_double_range [OF raw_double_top])
  have one: "rne (2 - 1) = 1" by (simp add: rne_id)
  have a: "rne (1 * (1 - 1 / 2 ^ 53)) = 1 - 1 / 2 ^ 53"
    using rne_id [OF r] by simp
  have b: "1 + (1 - 1 / 2 ^ 53) = 2 - 1 / (2::real) ^ 53" by simp
  have v: "rne (1 + rne (rne (2 - 1) * (1 - 1 / 2 ^ 53))) = 2"
    by (simp only: one a b rne_round_up_to_2)
  have fin: "dbl_finite (rne (2 - 1))"
    by (simp only: one) (simp add: dbl_finite_def)
  show ?thesis
    by (rule uniform_dbl_single [OF fin v])
qed

lemma rng_dbl_sconst: "raw_double c \<Longrightarrow> rng_dbl (sconst c)"
  by (simp add: rng_dbl_def)

lemma uniform_dbl_reaches_hi_inverted:
  "uniform_dbl 1 2 1 (sconst (1 - 1 / 2 ^ 53)) = Inr ([1], sconst (1 - 1 / 2 ^ 53))"
proof -
  have r: "is_double (1 - 1 / 2 ^ 53)"
    by (rule raw_double_range [OF raw_double_top])
  have m: "rne (- 1) = - 1"
    by (simp add: rne_uminus rne_id)
  have one: "rne (1 - 2) = - 1" using m by simp
  have a: "rne (- 1 * (1 - 1 / 2 ^ 53)) = - (1 - 1 / 2 ^ 53)"
    using rne_id [OF is_double_uminus [OF r]] by simp
  have b: "2 + - (1 - 1 / 2 ^ 53) = 1 + 1 / (2::real) ^ 53" by simp
  have v: "rne (2 + rne (rne (1 - 2) * (1 - 1 / 2 ^ 53))) = 1"
    by (simp only: one a b rne_round_down_to_1)
  have fin: "dbl_finite (rne (1 - 2))"
    by (simp only: one) (simp add: dbl_finite_def)
  show ?thesis
    by (rule uniform_dbl_single [OF fin v])
qed

lemma rne_pow2_1024: "rne (2 ^ 1024) = 2 ^ 1024"
proof -
  have r: "round_even (2 ^ 1024 / pow2 972) = 2 ^ 52"
    using round_even_of_int [of "2 ^ 52"] by simp
  have "rne (2 ^ 1024) = of_int (2 ^ 52) * pow2 972"
    by (rule rne_eqI [OF _ _ _ r]) simp_all
  then show ?thesis by simp
qed

lemma is_double_pow2_1023: "is_double (2 ^ 1023)"
  by (rule is_doubleI [of "2 ^ 52" 971]) simp_all

lemma is_double_minus_pow2_1023: "is_double (- (2 ^ 1023))"
  by (rule is_double_uminus [OF is_double_pow2_1023])

text \<open>The range of two finite doubles can overflow, also when no value is asked for.\<close>

lemma uniform_dbl_overflow_example:
  "uniform_dbl 0 (- (2 ^ 1023)) (2 ^ 1023) g = Inl OverflowError"
proof -
  have "(2::real) ^ 1023 - - (2 ^ 1023) = 2 ^ 1024" by simp
  then have "\<not> dbl_finite (rne (2 ^ 1023 - - (2 ^ 1023)))"
    by (simp only: rne_pow2_1024) (simp add: dbl_finite_def)
  then show ?thesis by (rule uniform_dbl_overflow)
qed

section \<open>Claims about RNG.sphere and RNG.uniform\<close>

text \<open>
  C1. For every non-negative integer \<open>n\<close>, \<open>sphere(n)\<close> returns an ordered sequence of
  exactly \<open>n\<close> Cartesian triples \<open>(x, y, z)\<close>, each of Euclidean norm exactly 1 in real
  arithmetic (hence within any tolerance of 1); \<open>sphere(0)\<close> returns the empty sequence and
  leaves the generator untouched.
\<close>

theorem sphere_unit_points:
  assumes "0 \<le> n"
  shows "(\<exists>ps g'. sphere n g = Inr (ps, g') \<and> length ps = nat n \<and>
            (\<forall>p \<in> set ps. \<exists>x y z. p = [x, y, z] \<and> sqrt (x\<^sup>2 + y\<^sup>2 + z\<^sup>2) = 1))
         \<and> sphere 0 g = Inr ([], g)"
proof
  from sphere_run_nonneg [OF assms, of g] obtain l where
    run: "sphere_run n g = Inr (l, sdrop (nat n + nat n) g)" and
    out: "ret l = map (\<lambda>i. [sin (loc_t l ! i) * cos (loc_phi l ! i),
                         sin (loc_t l ! i) * sin (loc_phi l ! i),
                         cos (loc_t l ! i)]) [0..<nat n]"
    by blast
  have len: "length (ret l) = nat n" by (simp add: out)
  have "\<exists>x y z. p = [x, y, z] \<and> sqrt (x\<^sup>2 + y\<^sup>2 + z\<^sup>2) = 1" if "p \<in> set (ret l)" for p
  proof -
    from that obtain i where
      p: "p = [sin (loc_t l ! i) * cos (loc_phi l ! i), sin (loc_t l ! i) * sin (loc_phi l ! i),
               cos (loc_t l ! i)]"
      unfolding out by auto
    show ?thesis unfolding p by (simp add: unit_norm)
  qed
  with sphere_of_run [OF run] len
  show "\<exists>ps g'. sphere n g = Inr (ps, g') \<and> length ps = nat n \<and>
            (\<forall>p \<in> set ps. \<exists>x y z. p = [x, y, z] \<and> sqrt (x\<^sup>2 + y\<^sup>2 + z\<^sup>2) = 1)"
    by blast
next
  show "sphere 0 g = Inr ([], g)"
    by (simp add: sphere_def sphere_run_def uniform_default_def uniform_nonneg sphere_to_cart_def)
qed

theorem sphere_unit_points_witness:
  "(0::int) \<le> 2 \<and>
   (\<exists>ps g'. sphere 2 (sconst (1 / 2)) = Inr (ps, g') \<and> length ps = 2 \<and>
      (\<forall>p \<in> set ps. \<exists>x y z. p = [x, y, z] \<and> sqrt (x\<^sup>2 + y\<^sup>2 + z\<^sup>2) = 1))"
  using sphere_unit_points [of 2 "sconst (1 / 2)"] by simp

text \<open>
  The run on the generator whose raw samples are all \<open>1 / 2\<close>: \<open>u = 1 / 2\<close>,
  \<open>cos_t = 0\<close>, \<open>t = pi / 2\<close>, \<open>phi = pi\<close>, so both points are \<open>(-1, 0, 0)\<close>.
\<close>

lemma sphere_example:
  "sphere 2 (sconst (1 / 2)) = Inr ([[- 1, 0, 0], [- 1, 0, 0]], sconst (1 / 2))"
  by (simp add: sphere_def sphere_run_def uniform_default_def uniform_nonneg sphere_to_cart_def
      upt_rec)

text \<open>
  C2 as stated: for every non-negative integer \<open>n\<close> and floats \<open>lo < hi\<close>,
  \<open>uniform(n, lo, hi)\<close> returns exactly \<open>n\<close> values \<open>v\<close> with \<open>lo \<le> v < hi\<close>. This fails in
  double precision: for \<open>lo = 1.0\<close>, \<open>hi = 2.0\<close> and the largest raw sample
  \<open>1 - 2^(-53)\<close> the exact result \<open>2 - 2^(-53)\<close> lies halfway between two doubles and is
  rounded to \<open>2.0\<close>, which is \<open>hi\<close>.
\<close>

theorem uniform_upper_bound_counterexample:
  "is_double 1 \<and> is_double 2 \<and> (1::real) < 2 \<and> rng_dbl (sconst (1 - 1 / 2 ^ 53)) \<and>
   map_sum id fst (uniform_dbl 1 1 2 (sconst (1 - 1 / 2 ^ 53))) = Inr [2] \<and>
   \<not> projr (map_sum id fst (uniform_dbl 1 1 2 (sconst (1 - 1 / 2 ^ 53)))) ! 0 < 2"
  using uniform_dbl_reaches_hi rng_dbl_sconst [OF raw_double_top] by simp

text \<open>
  C2, amended: for every non-negative integer \<open>n\<close> and finite doubles \<open>lo < hi\<close>, when the
  difference \<open>hi - lo\<close> is finite in double arithmetic \<open>uniform(n, lo, hi)\<close> returns an
  ordered sequence of exactly \<open>n\<close> doubles, each with \<open>lo \<le> v \<le> hi\<close>, and
  \<open>uniform(0, lo, hi)\<close> returns the empty sequence; when \<open>hi - lo\<close> overflows the call
  raises \<open>OverflowError\<close> instead; with the default arguments the values lie between 0
  (included) and 1 (excluded).
\<close>

theorem uniform_dbl_in_range:
  assumes "0 \<le> n" and "is_double lo" and "is_double hi" and "lo < hi" and "rng_dbl g"
  shows "(dbl_finite (rne (hi - lo)) \<longrightarrow>
            (\<exists>vs g'. uniform_dbl n lo hi g = Inr (vs, g') \<and> length vs = nat n \<and>
               (\<forall>v \<in> set vs. is_double v \<and> lo \<le> v \<and> v \<le> hi)) \<and>
            uniform_dbl 0 lo hi g = Inr ([], g))
         \<and> (\<not> dbl_finite (rne (hi - lo)) \<longrightarrow> uniform_dbl n lo hi g = Inl OverflowError)
         \<and> (\<exists>ws g'. uniform_default_dbl n g = Inr (ws, g') \<and> length ws = nat n \<and>
               (\<forall>w \<in> set ws. 0 \<le> w \<and> w < 1))"
proof (intro conjI impI)
  assume fin: "dbl_finite (rne (hi - lo))"
  let ?vs = "map (\<lambda>r. rne (lo + rne (rne (hi - lo) * r))) (stake (nat n) g)"
  have "is_double v \<and> lo \<le> v \<and> v \<le> hi" if "v \<in> set ?vs" for v
  proof -
    from that obtain r where r: "r \<in> set (stake (nat n) g)"
      and v: "v = rne (lo + rne (rne (hi - lo) * r))" by auto
    from rng_dbl_stake [OF \<open>rng_dbl g\<close> r] have "raw_double r" .
    from uniform_value_between [OF \<open>is_double lo\<close> \<open>is_double hi\<close> fin this] \<open>lo < hi\<close>
    show ?thesis by (simp add: v)
  qed
  with uniform_dbl_finite [OF fin \<open>0 \<le> n\<close>, of g]
  show "\<exists>vs g'. uniform_dbl n lo hi g = Inr (vs, g') \<and> length vs = nat n \<and>
               (\<forall>v \<in> set vs. is_double v \<and> lo \<le> v \<and> v \<le> hi)"
    by (intro exI [of _ ?vs] exI [of _ "sdrop (nat n) g"]) simp
  show "uniform_dbl 0 lo hi g = Inr ([], g)"
    using uniform_dbl_finite [OF fin, of 0 g] by simp
next
  assume "\<not> dbl_finite (rne (hi - lo))"
  then show "uniform_dbl n lo hi g = Inl OverflowError"
    by (rule uniform_dbl_overflow)
next
  have "0 \<le> w \<and> w < 1" if "w \<in> set (stake (nat n) g)" for w
    using raw_double_range [OF rng_dbl_stake [OF \<open>rng_dbl g\<close> that]] by simp
  with uniform_default_dbl_values [OF \<open>0 \<le> n\<close> \<open>rng_dbl g\<close>]
  show "\<exists>ws g'. uniform_default_dbl n g = Inr (ws, g') \<and> length ws = nat n \<and>
               (\<forall>w \<in> set ws. 0 \<le> w \<and> w < 1)"
    by simp
qed

theorem uniform_dbl_in_range_witness:
  "(0::int) \<le> 3 \<and> is_double 1 \<and> is_double 2 \<and> (1::real) < 2 \<and> rng_dbl (sconst (1 / 2)) \<and>
   dbl_finite (rne (2 - 1)) \<and>
   (\<exists>vs g'. uniform_dbl 3 1 2 (sconst (1 / 2)) = Inr (vs, g') \<and> length vs = 3 \<and>
      (\<forall>v \<in> set vs. is_double v \<and> 1 \<le> v \<and> v \<le> 2)) \<and>
   \<not> dbl_finite (rne (2 ^ 1023 - - (2 ^ 1023))) \<and>
   uniform_dbl 3 (- (2 ^ 1023)) (2 ^ 1023) (sconst (1 / 2)) = Inl OverflowError"
proof -
  have g: "rng_dbl (sconst (1 / 2))"
    by (rule rng_dbl_sconst [OF raw_double_half])
  have fin: "dbl_finite (rne (2 - 1))"
    by (simp add: rne_id dbl_finite_def)
  have "(2::real) ^ 1023 - - (2 ^ 1023) = 2 ^ 1024" by simp
  then have inf: "\<not> dbl_finite (rne (2 ^ 1023 - - (2 ^ 1023)))"
    by (simp only: rne_pow2_1024) (simp add: dbl_finite_def)
  have lt: "- (2 ^ 1023) < (2::real) ^ 1023" by simp
  from uniform_dbl_in_range [of 3 1 2 "sconst (1 / 2)"] g fin
  have first: "\<exists>vs g'. uniform_dbl 3 1 2 (sconst (1 / 2)) = Inr (vs, g') \<and> length vs = 3 \<and>
      (\<forall>v \<in> set vs. is_double v \<and> 1 \<le> v \<and> v \<le> 2)"
    by simp
  from uniform_dbl_in_range [OF _ is_double_minus_pow2_1023 is_double_pow2_1023 lt g, of 3] inf
  have second: "uniform_dbl 3 (- (2 ^ 1023)) (2 ^ 1023) (sconst (1 / 2)) = Inl OverflowError"
    by simp
  from g fin inf first second show ?thesis by simp
qed





text \<open>
  C6. In \<open>sphere(n)\<close>, every value \<open>cos_t = 2u - 1\<close> lies strictly between -1 and 1, so
  \<open>arccos\<close> is only applied inside its domain; every polar angle \<open>t\<close> lies strictly between 0
  and \<open>pi\<close>; and no returned point has z equal to 1 or to -1.
\<close>

theorem sphere_avoids_poles:
  assumes "0 \<le> n" and "rng_ok g"
  shows "\<exists>l g'. sphere_run n g = Inr (l, g') \<and> sphere n g = Inr (ret l, g') \<and>
           loc_t l = map arccos (loc_cos_t l) \<and>
           length (loc_cos_t l) = nat n \<and> length (ret l) = nat n \<and>
           (\<forall>c \<in> set (loc_cos_t l). - 1 < c \<and> c < 1) \<and>
           (\<forall>a \<in> set (loc_t l). 0 < a \<and> a < pi) \<and>
           (\<forall>p \<in> set (ret l). p ! 2 \<noteq> 1 \<and> p ! 2 \<noteq> - 1)"
proof -
  from sphere_run_ranges [OF assms] obtain l where
    run: "sphere_run n g = Inr (l, sdrop (nat n + nat n) g)" and
    len: "length (loc_cos_t l) = nat n" "length (loc_t l) = nat n" "length (ret l) = nat n" and
    idx: "\<And>i. i < nat n \<Longrightarrow>
        1 / 1000000 \<le> draw_u l ! i \<and> draw_u l ! i < 1 - 1 / 1000000 \<and>
        loc_cos_t l ! i = 2 * draw_u l ! i - 1 \<and>
        loc_t l ! i = arccos (loc_cos_t l ! i) \<and>
        ret l ! i ! 2 = cos (loc_t l ! i)"
    by blast
  have c: "- 1 < loc_cos_t l ! i \<and> loc_cos_t l ! i < 1" if "i < nat n" for i
    using idx [OF that] by simp
  have a: "0 < loc_t l ! i \<and> loc_t l ! i < pi" if "i < nat n" for i
    using idx [OF that] c [OF that] arccos_lt_bounded [of "loc_cos_t l ! i"] by simp
  have z: "ret l ! i ! 2 \<noteq> 1 \<and> ret l ! i ! 2 \<noteq> - 1" if "i < nat n" for i
  proof -
    have "ret l ! i ! 2 = loc_cos_t l ! i"
      using idx [OF that] c [OF that] by simp
    with c [OF that] show ?thesis by simp
  qed
  have arr: "loc_t l = map arccos (loc_cos_t l)"
    using len idx by (intro nth_equalityI) simp_all
  have "\<forall>c \<in> set (loc_cos_t l). - 1 < c \<and> c < 1"
    using c len by (auto simp: in_set_conv_nth)
  moreover have "\<forall>a \<in> set (loc_t l). 0 < a \<and> a < pi"
    using a len by (auto simp: in_set_conv_nth)
  moreover have "\<forall>p \<in> set (ret l). p ! 2 \<noteq> 1 \<and> p ! 2 \<noteq> - 1"
    using z len by (auto simp: in_set_conv_nth)
  ultimately show ?thesis
    using run sphere_of_run [OF run] len arr by blast
qed

theorem sphere_avoids_poles_witness:
  "(0::int) \<le> 2 \<and> rng_ok (0 ## sconst (3 / 4)) \<and>
   (\<exists>l g'. sphere_run 2 (0 ## sconst (3 / 4)) = Inr (l, g') \<and> length (ret l) = 2 \<and>
      (\<forall>c \<in> set (loc_cos_t l). - 1 < c \<and> c < 1) \<and>
      (\<forall>a \<in> set (loc_t l). 0 < a \<and> a < pi) \<and>
      (\<forall>p \<in> set (ret l). p ! 2 \<noteq> 1 \<and> p ! 2 \<noteq> - 1))"
  using sphere_avoids_poles [of 2 "0 ## sconst (3 / 4)"] by (simp add: rng_ok_def) blast



text \<open>
  In double precision the check of the range comes before the check of the count, so a
  negative count ends in \<open>OverflowError\<close> when the range is not finite and in
  \<open>ValueError\<close> otherwise.
\<close>

lemma negative_count_raises_dbl:
  "n < 0 \<Longrightarrow>
   uniform_dbl n lo hi g =
     Inl (if dbl_finite (rne (hi - lo)) then ValueError else OverflowError)"
  by (simp add: uniform_dbl_def np_random_uniform_dbl_def Let_def)

text \<open>
  C10 as stated: for every \<open>lo\<close>, \<open>hi\<close> each returned value equals \<open>lo + (hi - lo) * u\<close> for
  some \<open>u\<close> with \<open>0 \<le> u < 1\<close>, so that for \<open>hi < lo\<close> the values satisfy \<open>hi < v \<le> lo\<close>. This
  fails in double precision: for \<open>lo = 2.0\<close>, \<open>hi = 1.0\<close> and the raw sample
  \<open>1 - 2^(-53)\<close> the exact result \<open>1 + 2^(-53)\<close> is rounded to \<open>1.0\<close>, which is \<open>hi\<close>.
\<close>

theorem uniform_inverted_bound_counterexample:
  "is_double 2 \<and> is_double 1 \<and> (1::real) < 2 \<and> rng_dbl (sconst (1 - 1 / 2 ^ 53)) \<and>
   map_sum id fst (uniform_dbl 1 2 1 (sconst (1 - 1 / 2 ^ 53))) = Inr [1] \<and>
   \<not> 1 < projr (map_sum id fst (uniform_dbl 1 2 1 (sconst (1 - 1 / 2 ^ 53)))) ! 0"
  using uniform_dbl_reaches_hi_inverted rng_dbl_sconst [OF raw_double_top] by simp

text \<open>
  C10, amended: \<open>uniform(n, lo, hi)\<close> does not compare its bounds; the only check is the
  generator's, which raises \<open>OverflowError\<close> when the double difference \<open>hi - lo\<close> is not
  finite. Otherwise, for all finite doubles \<open>lo\<close>, \<open>hi\<close> (also with \<open>hi \<le> lo\<close>) and
  \<open>n \<ge> 0\<close>, the value at each position is the double result of \<open>lo + (hi - lo) * r\<close> for
  the raw sample \<open>r\<close> of that position, \<open>0 \<le> r < 1\<close>, and it lies between the two bounds,
  both included. When \<open>lo = hi\<close> every value equals \<open>lo\<close>; when \<open>hi < lo\<close> the values
  satisfy \<open>hi \<le> v \<le> lo\<close>, and no error is raised.
\<close>

theorem uniform_dbl_unvalidated_bounds:
  assumes "0 \<le> n" and "is_double lo" and "is_double hi" and "rng_dbl g"
  shows "(\<not> dbl_finite (rne (hi - lo)) \<longrightarrow> uniform_dbl n lo hi g = Inl OverflowError)
         \<and> (dbl_finite (rne (hi - lo)) \<longrightarrow>
              (\<exists>vs g'. uniform_dbl n lo hi g = Inr (vs, g') \<and> length vs = nat n \<and>
                 (\<forall>i < nat n. vs ! i = rne (lo + rne (rne (hi - lo) * g !! i))) \<and>
                 (\<forall>v \<in> set vs.
                    (\<exists>r. 0 \<le> r \<and> r < 1 \<and> v = rne (lo + rne (rne (hi - lo) * r))) \<and>
                    min lo hi \<le> v \<and> v \<le> max lo hi) \<and>
                 (lo = hi \<longrightarrow> (\<forall>v \<in> set vs. v = lo)) \<and>
                 (hi < lo \<longrightarrow> (\<forall>v \<in> set vs. hi \<le> v \<and> v \<le> lo))))"
proof (intro conjI impI)
  assume "\<not> dbl_finite (rne (hi - lo))"
  then show "uniform_dbl n lo hi g = Inl OverflowError"
    by (rule uniform_dbl_overflow)
next
  assume fin: "dbl_finite (rne (hi - lo))"
  let ?vs = "map (\<lambda>r. rne (lo + rne (rne (hi - lo) * r))) (stake (nat n) g)"
  have each: "(\<exists>r. 0 \<le> r \<and> r < 1 \<and> v = rne (lo + rne (rne (hi - lo) * r))) \<and>
      min lo hi \<le> v \<and> v \<le> max lo hi" if "v \<in> set ?vs" for v
  proof -
    from that obtain r where r: "r \<in> set (stake (nat n) g)"
      and v: "v = rne (lo + rne (rne (hi - lo) * r))" by auto
    from rng_dbl_stake [OF \<open>rng_dbl g\<close> r] have raw: "raw_double r" .
    from raw_double_range [OF raw] have "0 \<le> r \<and> r < 1" by simp
    with v have "\<exists>r. 0 \<le> r \<and> r < 1 \<and> v = rne (lo + rne (rne (hi - lo) * r))" by blast
    with uniform_value_between [OF \<open>is_double lo\<close> \<open>is_double hi\<close> fin raw]
    show ?thesis by (simp add: v)
  qed
  have same: "v = lo" if "v \<in> set ?vs" and "lo = hi" for v
    using each [OF that(1)] that(2) by simp
  have inv: "hi \<le> v \<and> v \<le> lo" if "v \<in> set ?vs" and "hi < lo" for v
    using each [OF that(1)] that(2) by simp
  from uniform_dbl_finite [OF fin \<open>0 \<le> n\<close>, of g] each same inv
  show "\<exists>vs g'. uniform_dbl n lo hi g = Inr (vs, g') \<and> length vs = nat n \<and>
                 (\<forall>i < nat n. vs ! i = rne (lo + rne (rne (hi - lo) * g !! i))) \<and>
                 (\<forall>v \<in> set vs.
                    (\<exists>r. 0 \<le> r \<and> r < 1 \<and> v = rne (lo + rne (rne (hi - lo) * r))) \<and>
                    min lo hi \<le> v \<and> v \<le> max lo hi) \<and>
                 (lo = hi \<longrightarrow> (\<forall>v \<in> set vs. v = lo)) \<and>
                 (hi < lo \<longrightarrow> (\<forall>v \<in> set vs. hi \<le> v \<and> v \<le> lo))"
    by (intro exI [of _ ?vs] exI [of _ "sdrop (nat n) g"]) simp
qed

theorem uniform_dbl_unvalidated_bounds_witness:
  "(0::int) \<le> 2 \<and> is_double 3 \<and> is_double 1 \<and> rng_dbl (sconst (1 / 2)) \<and>
   dbl_finite (rne (1 - 3)) \<and> (1::real) < 3 \<and>
   (\<exists>vs g'. uniform_dbl 2 3 1 (sconst (1 / 2)) = Inr (vs, g') \<and> length vs = 2 \<and>
      (\<forall>v \<in> set vs. 1 \<le> v \<and> v \<le> 3)) \<and>
   dbl_finite (rne (3 - 3)) \<and>
   (\<exists>vs g'. uniform_dbl 2 3 3 (sconst (1 / 2)) = Inr (vs, g') \<and> length vs = 2 \<and>
      (\<forall>v \<in> set vs. v = 3)) \<and>
   \<not> dbl_finite (rne (2 ^ 1023 - - (2 ^ 1023))) \<and>
   uniform_dbl 2 (- (2 ^ 1023)) (2 ^ 1023) (sconst (1 / 2)) = Inl OverflowError"
proof -
  have g: "rng_dbl (sconst (1 / 2))"
    by (rule rng_dbl_sconst [OF raw_double_half])
  have "rne (- 2) = - 2"
    by (simp add: rne_uminus rne_id)
  then have fin1: "dbl_finite (rne (1 - 3))"
    by (simp add: dbl_finite_def)
  have fin2: "dbl_finite (rne (3 - 3))"
    by (simp add: dbl_finite_def)
  have "(2::real) ^ 1023 - - (2 ^ 1023) = 2 ^ 1024" by simp
  then have inf: "\<not> dbl_finite (rne (2 ^ 1023 - - (2 ^ 1023)))"
    by (simp only: rne_pow2_1024) (simp add: dbl_finite_def)
  from uniform_dbl_unvalidated_bounds [OF _ is_double_3 is_double_1 g, of 2] fin1
  have first: "\<exists>vs g'. uniform_dbl 2 3 1 (sconst (1 / 2)) = Inr (vs, g') \<and> length vs = 2 \<and>
      (\<forall>v \<in> set vs. 1 \<le> v \<and> v \<le> 3)"
    by simp blast
  from uniform_dbl_unvalidated_bounds [OF _ is_double_3 is_double_3 g, of 2] fin2
  have second: "\<exists>vs g'. uniform_dbl 2 3 3 (sconst (1 / 2)) = Inr (vs, g') \<and> length vs = 2 \<and>
      (\<forall>v \<in> set vs. v = 3)"
    by simp blast
  from uniform_dbl_unvalidated_bounds
    [OF _ is_double_minus_pow2_1023 is_double_pow2_1023 g, of 2] inf
  have third: "uniform_dbl 2 (- (2 ^ 1023)) (2 ^ 1023) (sconst (1 / 2)) = Inl OverflowError"
    by simp
  from g fin1 fin2 inf first second third show ?thesis by simp
qed

end
